theory Spec2Isabelle
  imports Main
begin

section \<open>The object store as the program sees it\<close>

text \<open>
  The program (\<^verbatim>\<open>s3_content_type_fixer.py\<close>) talks to a bucket of an object store
  through three operations of its client library: listing the keys under a prefix
  (\<^verbatim>\<open>bucket.objects.filter(Prefix=prefix)\<close>), building the handle of a key name
  (\<^verbatim>\<open>bucket.Object(key_name)\<close>) and copying an object onto itself with new metadata
  (\<^verbatim>\<open>key.copy_from(...)\<close>). The store is not part of the program. It is modelled by the
  state these operations read and write: what a listing returns is a parameter, the stored
  objects are a partial map from key names to their attributes. A listing may return a key
  name of which the object is no longer stored when a worker comes to it.
\<close>

record s3_object =
  content_type :: "string option"
  content_disposition :: "string option"
  metadata :: "string \<rightharpoonup> string"

record bucket =
  name :: string
  listing :: "string \<Rightarrow> string list"
  contents :: "string \<rightharpoonup> s3_object"

text \<open>
  An element of a listing (the library's object summary). Two summaries are equal when
  their identifiers, bucket name and key, are equal; that is the equality the Python set
  of \<^verbatim>\<open>find_matching_files\<close> uses.
\<close>

record object_summary =
  summary_bucket_name :: string
  summary_key :: string

text \<open>
  The handle \<^verbatim>\<open>bucket.Object(key_name)\<close> is a resource object of the client library
  (\<^verbatim>\<open>boto3\<close>, lines 11, 28 and 29). Building it sends no request to the store: the handle
  holds its identifiers only, whether an object is stored under the key or not.
\<close>

record object_handle =
  bucket_name :: string
  key :: string

definition Object :: "bucket \<Rightarrow> string \<Rightarrow> object_handle" where
  "Object b key_name = \<lparr>bucket_name = name b, key = key_name\<rparr>"

text \<open>
  The truth value of a handle (\<^verbatim>\<open>if not key\<close>, line 49). A resource object of the library
  defines neither a truth value nor a length, so as every such Python object it is true.
\<close>

definition handle_truth :: "object_handle \<Rightarrow> bool" where
  "handle_truth h = True"

text \<open>
  The first read of an attribute of a handle (\<^verbatim>\<open>key.content_type\<close>, line 56) asks the
  store for the attributes of the object; the later reads of the same handle use what came
  back. When no object is stored under the key the store answers that there is none and
  the read raises the library's \<^verbatim>\<open>ClientError\<close>: that is \<open>None\<close>.
\<close>

definition load :: "bucket \<Rightarrow> object_handle \<Rightarrow> s3_object option" where
  "load b h = contents b (key h)"

definition filter_objects :: "bucket \<Rightarrow> string \<Rightarrow> object_summary list" where
  "filter_objects b prefix =
     map (\<lambda>k. \<lparr>summary_bucket_name = name b, summary_key = k\<rparr>) (listing b prefix)"

text \<open>The keyword arguments of \<^verbatim>\<open>key.copy_from\<close>, as the worker passes them.\<close>

record copy_request =
  Bucket :: string
  Key :: string
  CopySource :: string
  MetadataDirective :: string
  Metadata :: "string \<rightharpoonup> string"
  ContentType :: string

text \<open>
  The effect of a copy with the directive that replaces all metadata: the destination
  object carries the metadata map and the content type of the request, and nothing the
  request does not restate (the content disposition is not a parameter of the call).
\<close>

definition copy_from :: "bucket \<Rightarrow> copy_request \<Rightarrow> bucket" where
  "copy_from b r =
     b\<lparr>contents := (contents b)(Key r \<mapsto>
          \<lparr>content_type = Some (ContentType r),
           content_disposition = None,
           metadata = Metadata r\<rparr>)\<rparr>"

section \<open>Python values\<close>

text \<open>\<^verbatim>\<open>s.endswith(suffix)\<close>.\<close>

definition endswith :: "string \<Rightarrow> string \<Rightarrow> bool" where
  "endswith s suffix =
     (length suffix \<le> length s \<and> drop (length s - length suffix) s = suffix)"

text \<open>The truth value of a string or \<^verbatim>\<open>None\<close>: \<^verbatim>\<open>None\<close> and the empty string are false.\<close>

definition truth :: "string option \<Rightarrow> bool" where
  "truth v = (case v of None \<Rightarrow> False | Some s \<Rightarrow> s \<noteq> [])"

text \<open>What \<^verbatim>\<open>%s\<close> prints for a string or \<^verbatim>\<open>None\<close>.\<close>

definition str :: "string option \<Rightarrow> string" where
  "str v = (case v of None \<Rightarrow> ''None'' | Some s \<Rightarrow> s)"

definition BLOCK_TIME :: nat where
  "BLOCK_TIME = 60 * 60"

section \<open>What a worker does\<close>

text \<open>
  The observable actions of a worker, in the order it performs them: a line printed to
  standard output, a line printed to the error stream, the request for an object's
  attributes (sent by the first attribute the worker reads of a handle,
  \<^verbatim>\<open>key.content_type\<close>), and a call of \<^verbatim>\<open>key.copy_from\<close>.
\<close>

datatype event =
    Stdout string
  | Stderr string
  | Fetch string
  | Copy copy_request



fun copies :: "event list \<Rightarrow> copy_request list" where
  "copies [] = []"
| "copies (Copy r # es) = r # copies es"
| "copies (Stdout s # es) = copies es"
| "copies (Stderr s # es) = copies es"
| "copies (Fetch k # es) = copies es"

text \<open>
  Lines 70 to 78: the metadata map of the object, with an existing \<^verbatim>\<open>Content-Type\<close> entry
  set to the expected type, and the content disposition, when it is true as a Python
  value, stored under \<^verbatim>\<open>Content-Disposition\<close>.
\<close>

definition fixed_metadata :: "s3_object \<Rightarrow> string \<Rightarrow> (string \<rightharpoonup> string)" where
  "fixed_metadata obj expected_content_type =
     (let m = metadata obj;
          m1 = (if m ''Content-Type'' \<noteq> None
                then m(''Content-Type'' \<mapsto> expected_content_type) else m);
          m2 = (if truth (content_disposition obj)
                then m1(''Content-Disposition'' \<mapsto> str (content_disposition obj)) else m1)
      in m2)"

text \<open>Lines 80 to 86: the arguments of the copy.\<close>

definition fix_request :: "object_handle \<Rightarrow> s3_object \<Rightarrow> string \<Rightarrow> copy_request" where
  "fix_request h obj expected_content_type =
     \<lparr>Bucket = bucket_name h,
      Key = key h,
      CopySource = bucket_name h @ ''/'' @ key h,
      MetadataDirective = ''REPLACE'',
      Metadata = fixed_metadata obj expected_content_type,
      ContentType = expected_content_type\<rparr>"

text \<open>
  Lines 70 to 86, the fix of one object: the call of \<^verbatim>\<open>key.copy_from\<close> with the adjusted
  metadata, and the bucket after it.
\<close>

definition fix_object :: "bucket \<Rightarrow> object_handle \<Rightarrow> s3_object \<Rightarrow> string \<Rightarrow> event list \<times> bucket" where
  "fix_object b h obj expected_content_type =
     ([Copy (fix_request h obj expected_content_type)],
      copy_from b (fix_request h obj expected_content_type))"

text \<open>
  How the body of the loop ends for one key name: it goes on with the next entry of the
  queue (it ends, or reaches a \<^verbatim>\<open>continue\<close>), or the \<^verbatim>\<open>ClientError\<close> of a read leaves it.
  Nothing in \<^verbatim>\<open>check_headers\<close> catches that exception, so it ends the worker.
\<close>

datatype body_end = Next_entry | ClientError_raised

text \<open>
  Lines 47 to 86, the body of the loop for one key name taken from the queue. The table of
  \<^verbatim>\<open>mimetypes.guess_type\<close> is the parameter \<open>guess_type\<close> (the first component of the pair
  it returns). The result is what the worker did, the bucket afterwards and how the body
  ended.
\<close>

definition check_key ::
  "(string \<Rightarrow> string option) \<Rightarrow> bucket \<Rightarrow> bool \<Rightarrow> bool \<Rightarrow> string
   \<Rightarrow> event list \<times> bucket \<times> body_end" where
  "check_key guess_type b verbose dryrun key_name =
     (let h = Object b key_name in
      if \<not> handle_truth h
      then ([Stderr (key h @ '': Could not lookup'')], b, Next_entry)
      else if endswith (key h) ''/'' then ([], b, Next_entry)
      else
        case load b h of
          None \<Rightarrow> ([Fetch (key h)], b, ClientError_raised)
        | Some obj \<Rightarrow>
            let current = content_type obj;
                expected_content_type = guess_type (key h)
            in if \<not> truth expected_content_type
               then ([Fetch (key h), Stderr (key h @ '': Could not guess content type'')],
                     b, Next_entry)
               else if current = expected_content_type
               then (Fetch (key h) #
                       (if verbose then [Stdout (key h @ '': Matches expected content type'')]
                        else []), b, Next_entry)
               else
                 let report =
                       [Fetch (key h),
                        Stdout (key h @ '': Current content type ('' @ str current
                                @ '') does not match expected ('' @ str expected_content_type
                                @ ''); fixing'')]
                 in if \<not> dryrun
                    then (case fix_object b h obj (str expected_content_type) of
                            (evs, b') \<Rightarrow> (report @ evs, b', Next_entry))
                    else (report, b, Next_entry))"

section \<open>The queue and the loop of a worker\<close>

text \<open>
  \<^verbatim>\<open>Queue.get(block=True, timeout=None)\<close> of the Python library, for one consumer. The
  queue is given by what will arrive: each entry with the number of seconds after which
  it is there, counted from the moment the consumer starts to wait for it. A call that
  blocks without a timeout returns the next entry however late it comes, and does not
  return when nothing comes; a call with a timeout raises \<^verbatim>\<open>Empty\<close> when the entry is
  not there in time; a call that does not block raises \<^verbatim>\<open>Empty\<close> unless the entry is
  there already.
\<close>

datatype 'a got = Got 'a | Raises_Empty | Never_returns

fun queue_get :: "(nat \<times> 'a) list \<Rightarrow> bool \<Rightarrow> nat option \<Rightarrow> 'a got \<times> (nat \<times> 'a) list" where
  "queue_get [] block timeout =
     (if block \<and> timeout = None then Never_returns else Raises_Empty, [])"
| "queue_get ((delay, x) # q) block timeout =
     (if \<not> block then (if delay = 0 then (Got x, q) else (Raises_Empty, (delay, x) # q))
      else case timeout of
             None \<Rightarrow> (Got x, q)
           | Some t \<Rightarrow> if delay \<le> t then (Got x, q) else (Raises_Empty, (delay - t, x) # q))"

text \<open>How the loop of a worker ends, if it does.\<close>

datatype ending = Sentinel_received | Get_raised | Blocked_in_get | Body_raised

text \<open>
  Lines 38 to 86. The call is \<^verbatim>\<open>queue.get(BLOCK_TIME)\<close>: the one positional argument is
  the parameter \<open>block\<close>, of which the call takes the truth value, and \<open>timeout\<close> keeps
  its default \<^verbatim>\<open>None\<close>. An exception of the call leaves the loop, and so does the
  sentinel \<^verbatim>\<open>None\<close>. An exception in the body of the loop is not caught and ends the
  worker.
\<close>

function check_headers ::
  "(string \<Rightarrow> string option) \<Rightarrow> bucket \<Rightarrow> (nat \<times> string option) list \<Rightarrow> bool \<Rightarrow> bool
   \<Rightarrow> event list \<times> bucket \<times> ending" where
  "check_headers guess_type b queue verbose dryrun =
     (case queue_get queue (BLOCK_TIME \<noteq> 0) None of
        (Never_returns, _) \<Rightarrow> ([], b, Blocked_in_get)
      | (Raises_Empty, _) \<Rightarrow> ([], b, Get_raised)
      | (Got None, _) \<Rightarrow> ([], b, Sentinel_received)
      | (Got (Some key_name), queue') \<Rightarrow>
          (case check_key guess_type b verbose dryrun key_name of
             (evs, b', ClientError_raised) \<Rightarrow> (evs, b', Body_raised)
           | (evs, b', Next_entry) \<Rightarrow>
               (case check_headers guess_type b' queue' verbose dryrun of
                  (evs', final, how) \<Rightarrow> (evs @ evs', final, how))))"
  by pat_completeness auto

termination check_headers
  apply (relation "measure (\<lambda>(g, b, q, v, d). length q)")
   apply simp
  subgoal for guess_type b queue
    by (cases queue) (auto simp: BLOCK_TIME_def)
  done

declare check_headers.simps [simp del]

section \<open>The coordinator and the pool of workers\<close>

text \<open>Line 20. The generator runs through the prefixes in order and through each listing.\<close>

definition find_matching_files :: "bucket \<Rightarrow> string list \<Rightarrow> object_summary set" where
  "find_matching_files b prefixes =
     set (concat (map (\<lambda>prefix. filter_objects b prefix) prefixes))"

text \<open>
  A \<^verbatim>\<open>for\<close> loop over a Python set visits every element once, in an order the language
  does not fix: \<open>iterates xs S\<close> says that \<open>xs\<close> is one such order of visiting \<open>S\<close>.
\<close>

definition iterates :: "'a list \<Rightarrow> 'a set \<Rightarrow> bool" where
  "iterates xs S = (distinct xs \<and> set xs = S)"

text \<open>The parsed arguments \<^verbatim>\<open>main\<close> uses after it has the bucket.\<close>

record args =
  prefixes :: "string list"
  workers :: int
  verbose :: bool
  dryrun :: bool

text \<open>
  The processes of one run: what \<^verbatim>\<open>main\<close> has still to put on the queue, the queue, for
  each worker whether it is still in its loop (it is not when it has left the loop or an
  exception has ended it), the entries taken from the queue with the
  worker that took each, what the workers did, and the bucket.
\<close>

record system =
  to_put :: "string option list"
  queue :: "string option list"
  in_loop :: "bool list"
  dequeued :: "(nat \<times> string option) list"
  trace :: "(nat \<times> event) list"
  store :: bucket

text \<open>
  Lines 107 to 125: \<^verbatim>\<open>main\<close> starts \<^verbatim>\<open>args.workers\<close> workers on an empty queue
  (\<^verbatim>\<open>xrange\<close> of a number below one is empty), and then puts the key of every candidate,
  in the order \<open>order\<close> in which the loop visits the set, and one \<^verbatim>\<open>None\<close> for each
  worker. The state is the one in which the workers run and no entry is put yet.
\<close>

definition main :: "bucket \<Rightarrow> args \<Rightarrow> object_summary list \<Rightarrow> system" where
  "main b a order =
     \<lparr>to_put = map (\<lambda>c. Some (summary_key c)) order @ replicate (nat (workers a)) None,
      queue = [],
      in_loop = replicate (nat (workers a)) True,
      dequeued = [],
      trace = [],
      store = b\<rparr>"

text \<open>
  One step of the run: \<^verbatim>\<open>main\<close> puts its next entry at the end of the queue, or the
  call of \<^verbatim>\<open>queue.get\<close> of a worker that is in its loop returns the entry at the head of
  the queue and the worker goes through the body of its loop with it (it leaves the loop
  at \<^verbatim>\<open>None\<close>, and it ends when the body raises). A step that cannot be taken is \<open>None\<close>: \<^verbatim>\<open>main\<close> has nothing left to
  put, the worker has left its loop, or the queue is empty and the worker stays in the
  call.
\<close>

datatype action = Put | Get nat

fun step ::
  "(string \<Rightarrow> string option) \<Rightarrow> bool \<Rightarrow> bool \<Rightarrow> action \<Rightarrow> system \<Rightarrow> system option" where
  "step guess_type v d Put s =
     (case to_put s of
        [] \<Rightarrow> None
      | e # es \<Rightarrow> Some (s\<lparr>to_put := es, queue := queue s @ [e]\<rparr>))"
| "step guess_type v d (Get i) s =
     (if i < length (in_loop s) \<and> in_loop s ! i
      then case queue s of
             [] \<Rightarrow> None
           | None # q \<Rightarrow>
               Some (s\<lparr>queue := q, in_loop := (in_loop s)[i := False],
                       dequeued := dequeued s @ [(i, None)]\<rparr>)
           | Some key_name # q \<Rightarrow>
               (case check_key guess_type (store s) v d key_name of
                  (evs, b', how) \<Rightarrow>
                    Some (s\<lparr>queue := q,
                            in_loop := (in_loop s)[i := (how = Next_entry)],
                            dequeued := dequeued s @ [(i, Some key_name)],
                            trace := trace s @ map (\<lambda>e. (i, e)) evs,
                            store := b'\<rparr>))
      else None)"

fun run ::
  "(string \<Rightarrow> string option) \<Rightarrow> bool \<Rightarrow> bool \<Rightarrow> action list \<Rightarrow> system \<Rightarrow> system option" where
  "run guess_type v d [] s = Some s"
| "run guess_type v d (a # as) s =
     (case step guess_type v d a s of
        None \<Rightarrow> None
      | Some s' \<Rightarrow> run guess_type v d as s')"

text \<open>Whether some step can be taken.\<close>

definition enabled :: "system \<Rightarrow> bool" where
  "enabled s = (to_put s \<noteq> [] \<or> (queue s \<noteq> [] \<and> True \<in> set (in_loop s)))"

text \<open>
  The key names among the entries of a queue, in their order; the entries may come with
  the time of their arrival or with the worker that took them.
\<close>

fun key_names :: "('a \<times> string option) list \<Rightarrow> string list" where
  "key_names [] = []"
| "key_names ((i, None) # es) = key_names es"
| "key_names ((i, Some k) # es) = k # key_names es"

text \<open>
  What holds of every state of a run of \<open>W\<close> workers: there are \<open>W\<close> workers, and for each
  that is in its loop a \<^verbatim>\<open>None\<close> is on the queue or still to be put.
\<close>

definition sentinel_invariant :: "nat \<Rightarrow> system \<Rightarrow> bool" where
  "sentinel_invariant W s =
     (length (in_loop s) = W
      \<and> count_list (in_loop s) True \<le> count_list (queue s @ to_put s) None)"

text \<open>Every key name of \<open>keys\<close> ends with the path separator or has its object stored.\<close>

definition readable :: "bucket \<Rightarrow> string list \<Rightarrow> bool" where
  "readable b keys = (\<forall>k \<in> set keys. endswith k ''/'' \<or> contents b k \<noteq> None)"

text \<open>
  What holds of every state of a run when the key names \<open>keys\<close> that \<^verbatim>\<open>main\<close> puts are
  readable: they stay so, the key names taken so far are the first of \<open>keys\<close>, the rest of
  them is still to come, in order, followed by one \<^verbatim>\<open>None\<close> for each worker that is in
  its loop, and while a key name is still to come all \<open>W\<close> workers are in their loops.
\<close>

definition run_invariant :: "string list \<Rightarrow> nat \<Rightarrow> system \<Rightarrow> bool" where
  "run_invariant keys W s =
     (readable (store s) keys
      \<and> (\<exists>rest. key_names (dequeued s) @ rest = keys
            \<and> queue s @ to_put s = map Some rest @ replicate (count_list (in_loop s) True) None
            \<and> length (in_loop s) = W
            \<and> (rest \<noteq> [] \<longrightarrow> count_list (in_loop s) True = W)))"

text \<open>The key names among the entries on a queue, in their order.\<close>

fun keys_in :: "string option list \<Rightarrow> string list" where
  "keys_in [] = []"
| "keys_in (None # es) = keys_in es"
| "keys_in (Some k # es) = k # keys_in es"


section \<open>A bucket to run the program on\<close>

text \<open>
  The bucket of the scenarios: \<^verbatim>\<open>a.png\<close> declared as \<^verbatim>\<open>text/plain\<close>, with a content
  disposition and two metadata entries, \<^verbatim>\<open>b.css\<close> declared as \<^verbatim>\<open>text/css\<close>, the
  directory marker \<^verbatim>\<open>dir/\<close>, and \<^verbatim>\<open>weird.unknownext\<close>. The listing returns the keys
  that start with the prefix, and with them \<^verbatim>\<open>gone.png\<close>, of which no object is stored any more.
\<close>

definition scenario_objects :: "(string \<times> s3_object) list" where
  "scenario_objects =
     [(''a.png'', \<lparr>content_type = Some ''text/plain'',
                   content_disposition = Some ''inline'',
                   metadata = [''Content-Type'' \<mapsto> ''text/plain'', ''owner'' \<mapsto> ''ops'']\<rparr>),
      (''b.css'', \<lparr>content_type = Some ''text/css'',
                   content_disposition = None,
                   metadata = Map.empty\<rparr>),
      (''dir/'', \<lparr>content_type = Some ''binary/octet-stream'',
                  content_disposition = None,
                  metadata = Map.empty\<rparr>),
      (''weird.unknownext'', \<lparr>content_type = Some ''binary/octet-stream'',
                  content_disposition = None,
                  metadata = Map.empty\<rparr>)]"

definition scenario_bucket :: bucket where
  "scenario_bucket =
     \<lparr>name = ''assets'',
      listing = (\<lambda>prefix. filter (\<lambda>k. take (length prefix) k = prefix)
                   (map fst scenario_objects @ [''gone.png''])),
      contents = map_of scenario_objects\<rparr>"

definition scenario_guess :: "string \<Rightarrow> string option" where
  "scenario_guess k =
     (if endswith k ''.png'' then Some ''image/png''
      else if endswith k ''.css'' then Some ''text/css''
      else None)"

section \<open>The loop, entry by entry\<close>

lemma check_headers_empty: "check_headers g b [] v d = ([], b, Blocked_in_get)"
  by (simp add: check_headers.simps BLOCK_TIME_def)

lemma check_headers_sentinel:
  "check_headers g b ((t, None) # q) v d = ([], b, Sentinel_received)"
  by (simp add: check_headers.simps BLOCK_TIME_def)

lemma check_headers_key:
  "check_headers g b ((t, Some k) # q) v d =
     (case check_key g b v d k of
        (evs, b', ClientError_raised) \<Rightarrow> (evs, b', Body_raised)
      | (evs, b', Next_entry) \<Rightarrow>
          (case check_headers g b' q v d of
             (evs', final, how) \<Rightarrow> (evs @ evs', final, how)))"
  by (subst check_headers.simps) (simp add: BLOCK_TIME_def)

lemmas check_key_unfold = check_key_def Object_def handle_truth_def load_def Let_def

lemma check_key_directory:
  "endswith k ''/'' \<Longrightarrow> check_key g b v d k = ([], b, Next_entry)"
  by (simp add: check_key_unfold)

lemma check_key_unstored:
  "contents b k = None \<Longrightarrow> \<not> endswith k ''/'' \<Longrightarrow>
   check_key g b v d k = ([Fetch k], b, ClientError_raised)"
  by (simp add: check_key_unfold)

lemma check_key_unguessable:
  "contents b k = Some obj \<Longrightarrow> \<not> endswith k ''/'' \<Longrightarrow> \<not> truth (g k) \<Longrightarrow>
   check_key g b v d k =
     ([Fetch k, Stderr (k @ '': Could not guess content type'')], b, Next_entry)"
  by (simp add: check_key_unfold)

lemma check_key_match:
  "contents b k = Some obj \<Longrightarrow> \<not> endswith k ''/'' \<Longrightarrow> truth (g k) \<Longrightarrow>
   content_type obj = g k \<Longrightarrow>
   check_key g b v d k =
     (Fetch k # (if v then [Stdout (k @ '': Matches expected content type'')] else []),
      b, Next_entry)"
  by (simp add: check_key_unfold)

lemma check_key_mismatch_dryrun:
  "contents b k = Some obj \<Longrightarrow> \<not> endswith k ''/'' \<Longrightarrow> truth (g k) \<Longrightarrow>
   content_type obj \<noteq> g k \<Longrightarrow>
   check_key g b v True k =
     ([Fetch k,
       Stdout (k @ '': Current content type ('' @ str (content_type obj)
               @ '') does not match expected ('' @ str (g k) @ ''); fixing'')],
      b, Next_entry)"
  by (simp add: check_key_unfold)

lemma check_key_mismatch_fix:
  "contents b k = Some obj \<Longrightarrow> \<not> endswith k ''/'' \<Longrightarrow> truth (g k) \<Longrightarrow>
   content_type obj \<noteq> g k \<Longrightarrow>
   check_key g b v False k =
     ([Fetch k,
       Stdout (k @ '': Current content type ('' @ str (content_type obj)
               @ '') does not match expected ('' @ str (g k) @ ''); fixing''),
       Copy (fix_request (Object b k) obj (str (g k)))],
      copy_from b (fix_request (Object b k) obj (str (g k))), Next_entry)"
  by (simp add: check_key_unfold fix_object_def)

lemma fixed_metadata_apply:
  "fixed_metadata obj e x =
     (if x = ''Content-Disposition'' \<and> truth (content_disposition obj)
      then content_disposition obj
      else if x = ''Content-Type'' \<and> metadata obj x \<noteq> None then Some e
      else metadata obj x)"
  by (auto simp: fixed_metadata_def Let_def truth_def str_def split: option.splits)

text \<open>What unfolds the bucket of the scenarios.\<close>

lemmas scenario = scenario_bucket_def scenario_objects_def scenario_guess_def endswith_def

section \<open>The fix of one object\<close>

text \<open>
  Claim C1. When a key name taken from the queue has its object stored, does not end with
  the path separator, has an expected type (a non-empty string) and the object's declared
  type differs from it, a worker that is not in a dry run issues exactly one copy: onto
  the same bucket and key, from the source \<^verbatim>\<open>bucket/key\<close>, with the directive
  \<^verbatim>\<open>REPLACE\<close> and the expected type as content type. Its metadata map is the object's
  map, in which an existing \<^verbatim>\<open>Content-Type\<close> entry is overwritten with the expected type
  and the content disposition, when the object has one (a non-empty string), is stored
  under \<^verbatim>\<open>Content-Disposition\<close>.
\<close>

theorem fix_issues_one_replacing_copy:
  assumes "contents b k = Some obj" and "\<not> endswith k ''/''"
    and "guess_type k = Some e" and "e \<noteq> []" and "content_type obj \<noteq> Some e"
  shows "copies (fst (check_key guess_type b v False k)) =
           [\<lparr>Bucket = name b, Key = k, CopySource = name b @ ''/'' @ k,
             MetadataDirective = ''REPLACE'',
             Metadata = (\<lambda>x. if x = ''Content-Disposition'' \<and> truth (content_disposition obj)
                              then content_disposition obj
                              else if x = ''Content-Type'' \<and> metadata obj x \<noteq> None then Some e
                              else metadata obj x),
             ContentType = e\<rparr>]"
proof -
  have t: "truth (guess_type k)" using assms(3,4) by (simp add: truth_def)
  have ne: "content_type obj \<noteq> guess_type k" using assms(3,5) by simp
  have m: "fixed_metadata obj e = (\<lambda>x. if x = ''Content-Disposition'' \<and> truth (content_disposition obj)
                              then content_disposition obj
                              else if x = ''Content-Type'' \<and> metadata obj x \<noteq> None then Some e
                              else metadata obj x)"
    by (rule ext) (rule fixed_metadata_apply)
  show ?thesis
    using assms(3) m
    by (simp add: check_key_mismatch_fix [where g = guess_type, OF assms(1,2) t ne] fix_request_def Object_def str_def)
qed

theorem fix_issues_one_replacing_copy_witness:
  "map (\<lambda>r. (Bucket r, Key r, CopySource r, MetadataDirective r, ContentType r,
              Metadata r ''Content-Type'', Metadata r ''Content-Disposition'',
              Metadata r ''owner'', Metadata r ''other''))
       (copies (fst (check_key scenario_guess scenario_bucket False False ''a.png''))) =
     [(''assets'', ''a.png'', ''assets/a.png'', ''REPLACE'', ''image/png'',
       Some ''image/png'', Some ''inline'', Some ''ops'', None)]"
  using fix_issues_one_replacing_copy
          [of scenario_bucket "''a.png''"
              "\<lparr>content_type = Some ''text/plain'', content_disposition = Some ''inline'',
                metadata = [''Content-Type'' \<mapsto> ''text/plain'', ''owner'' \<mapsto> ''ops'']\<rparr>"
              scenario_guess "''image/png''" False]
  by (simp add: scenario truth_def)

text \<open>
  Claim C10. In the copy a worker issues for such a key, the metadata map agrees with the
  object's map at every key other than \<^verbatim>\<open>Content-Type\<close> and \<^verbatim>\<open>Content-Disposition\<close>;
  when the object's map has no \<^verbatim>\<open>Content-Type\<close> entry the map of the copy has none
  either, and the expected type is the content type of the copy; when the object has no
  content disposition (none, or the empty string) the \<^verbatim>\<open>Content-Disposition\<close> entry is
  as in the object's map, so none is added.
\<close>

theorem fix_keeps_other_metadata:
  assumes "contents b k = Some obj" and "\<not> endswith k ''/''"
    and "guess_type k = Some e" and "e \<noteq> []" and "content_type obj \<noteq> Some e"
  shows "\<exists>r. copies (fst (check_key guess_type b v False k)) = [r]
           \<and> ContentType r = e
           \<and> (\<forall>x. x \<noteq> ''Content-Type'' \<and> x \<noteq> ''Content-Disposition''
                  \<longrightarrow> Metadata r x = metadata obj x)
           \<and> (metadata obj ''Content-Type'' = None \<longrightarrow> Metadata r ''Content-Type'' = None)
           \<and> (\<not> truth (content_disposition obj)
                  \<longrightarrow> Metadata r ''Content-Disposition'' = metadata obj ''Content-Disposition'')"
proof -
  have t: "truth (guess_type k)" using assms(3,4) by (simp add: truth_def)
  have ne: "content_type obj \<noteq> guess_type k" using assms(3,5) by simp
  show ?thesis
    using assms(3)
    by (simp add: check_key_mismatch_fix [where g = guess_type, OF assms(1,2) t ne]
                  fix_request_def str_def fixed_metadata_apply)
qed

theorem fix_keeps_other_metadata_witness:
  "\<exists>r. copies (fst (check_key scenario_guess
                   (scenario_bucket\<lparr>contents := [''c.png'' \<mapsto>
                       \<lparr>content_type = None, content_disposition = Some [],
                        metadata = [''owner'' \<mapsto> ''ops'']\<rparr>]\<rparr>)
                   True False ''c.png'')) = [r]
       \<and> ContentType r = ''image/png''
       \<and> Metadata r ''owner'' = Some ''ops''
       \<and> Metadata r ''Content-Type'' = None
       \<and> Metadata r ''Content-Disposition'' = None"
  using fix_keeps_other_metadata
          [of "scenario_bucket\<lparr>contents := [''c.png'' \<mapsto>
                       \<lparr>content_type = None, content_disposition = Some [],
                        metadata = [''owner'' \<mapsto> ''ops'']\<rparr>]\<rparr>"
              "''c.png''"
              "\<lparr>content_type = None, content_disposition = Some [],
                metadata = [''owner'' \<mapsto> ''ops'']\<rparr>"
              scenario_guess "''image/png''" True]
  by (fastforce simp: scenario truth_def)

text \<open>
  Claim C7. After the fix of an object with an expected type, the object declares that
  type, and the fix of it with the same expected type, from the attributes it now has,
  leaves the bucket as it is: the declared type and the metadata map of the object do not
  change again.
\<close>

theorem fix_is_idempotent:
  assumes "contents b k = Some obj"
  shows "\<exists>obj1. contents (snd (fix_object b (Object b k) obj e)) k = Some obj1
           \<and> content_type obj1 = Some e
           \<and> snd (fix_object (snd (fix_object b (Object b k) obj e))
                     (Object (snd (fix_object b (Object b k) obj e)) k) obj1 e)
               = snd (fix_object b (Object b k) obj e)"
proof -
  let ?obj1 = "\<lparr>content_type = Some e, content_disposition = None,
                metadata = fixed_metadata obj e\<rparr>"
  have m: "fixed_metadata ?obj1 e = fixed_metadata obj e"
    by (rule ext) (auto simp: fixed_metadata_apply truth_def)
  show ?thesis
    by (simp add: fix_object_def copy_from_def fix_request_def Object_def m)
qed

theorem fix_is_idempotent_witness:
  "\<exists>obj1. contents (snd (fix_object scenario_bucket (Object scenario_bucket ''a.png'')
                            (snd (scenario_objects ! 0)) ''image/png'')) ''a.png'' = Some obj1
           \<and> content_type obj1 = Some ''image/png''
           \<and> snd (fix_object (snd (fix_object scenario_bucket (Object scenario_bucket ''a.png'')
                                  (snd (scenario_objects ! 0)) ''image/png''))
                     (Object (snd (fix_object scenario_bucket (Object scenario_bucket ''a.png'')
                                  (snd (scenario_objects ! 0)) ''image/png'')) ''a.png'') obj1 ''image/png'')
               = snd (fix_object scenario_bucket (Object scenario_bucket ''a.png'')
                                  (snd (scenario_objects ! 0)) ''image/png'')"
proof -
  have "contents scenario_bucket ''a.png'' = Some (snd (scenario_objects ! 0))"
    by (simp add: scenario)
  then show ?thesis
    by (rule fix_is_idempotent)
qed

section \<open>Keys the worker does not compare\<close>

text \<open>
  Claim C6 does not hold of the code. The handle of a key name is true whether its object
  is stored or not, so the report of a lookup failure (lines 49 to 51) is never printed.
  For a key name of which the object is not stored the failure comes at the read of the
  declared type (line 56), as an exception that nothing catches: the worker prints
  nothing for the key and ends, and the entries after it are not taken by this worker.
\<close>

theorem unstored_key_ends_the_worker:
  "contents scenario_bucket ''gone.png'' = None \<and>
   check_headers scenario_guess scenario_bucket
     [(0, Some ''gone.png''), (0, Some ''b.css''), (0, None)] True False =
     ([Fetch ''gone.png''], scenario_bucket, Body_raised)"
  by (simp add: check_headers_key check_key_unfold scenario)

text \<open>
  Claim C4. When a key name taken from the queue ends with the path separator, the worker
  does nothing for it, whether an object is stored under it or not: it asks for no
  attribute, prints nothing and issues no copy, and its run is its run on the rest of the
  queue.
\<close>

theorem directory_key_is_skipped:
  assumes "endswith k ''/''"
  shows "check_headers g b ((t, Some k) # q) v d = check_headers g b q v d"
  by (simp add: check_headers_key check_key_directory [OF assms])

theorem directory_key_is_skipped_witness:
  "endswith ''old/'' ''/'' \<and> contents scenario_bucket ''old/'' = None \<and>
   check_headers scenario_guess scenario_bucket [(0, Some ''old/''), (0, None)] True False =
     ([], scenario_bucket, Sentinel_received)"
proof -
  have e: "endswith ''old/'' ''/''"
    by (simp add: endswith_def)
  from directory_key_is_skipped [OF e] show ?thesis
    by (simp add: check_headers_sentinel scenario)
qed

text \<open>
  Claim C5, amended. When a key name taken from the queue does not end with the path
  separator, its object is stored, so that the read of its declared type returns, and it
  has no expected type (none, or the empty string), the worker prints the inference
  failure for that key to the error stream, issues no copy, and goes on with the rest of
  the queue on the same bucket. The body is left before the type is guessed for a
  directory marker (lines 53 and 54), for which nothing is printed, and at the read of the
  declared type (line 56) when the object is not stored. These are the counterexamples to
  the claim as it is stated.
\<close>

theorem inference_failure_is_reported:
  assumes "contents b k = Some obj" and "\<not> endswith k ''/''" and "\<not> truth (g k)"
  shows "check_headers g b ((t, Some k) # q) v d =
           (case check_headers g b q v d of
              (evs, final, how) \<Rightarrow>
                (Fetch k # Stderr (k @ '': Could not guess content type'') # evs, final, how))"
  by (simp add: check_headers_key check_key_unguessable [where g = g, OF assms])

theorem inference_failure_is_reported_witness:
  "check_headers scenario_guess scenario_bucket
     [(0, Some ''weird.unknownext''), (0, None)] False False =
     ([Fetch ''weird.unknownext'', Stderr ''weird.unknownext: Could not guess content type''],
      scenario_bucket, Sentinel_received)"
proof -
  have "contents scenario_bucket ''weird.unknownext'' = Some (snd (scenario_objects ! 3))"
    and "\<not> endswith ''weird.unknownext'' ''/''"
    and "\<not> truth (scenario_guess ''weird.unknownext'')"
    by (simp_all add: scenario truth_def)
  from inference_failure_is_reported [where g = scenario_guess, OF this] show ?thesis
    by (simp add: check_headers_sentinel)
qed

theorem no_inference_report_counterexample:
  "scenario_guess ''dir/'' = None \<and> scenario_guess ''gone.unknownext'' = None \<and>
   check_headers scenario_guess scenario_bucket [(0, Some ''dir/''), (0, None)] True False =
     ([], scenario_bucket, Sentinel_received) \<and>
   check_headers scenario_guess scenario_bucket
     [(0, Some ''gone.unknownext''), (0, None)] True False =
     ([Fetch ''gone.unknownext''], scenario_bucket, Body_raised)"
  by (simp add: check_headers_key check_headers_sentinel check_key_unfold scenario)

section \<open>The candidate set\<close>

lemma count_list_distinct:
  "distinct xs \<Longrightarrow> count_list xs x = (if x \<in> set xs then 1 else 0)"
  by (induction xs) auto

lemma find_matching_files_union:
  "find_matching_files b ps = (\<Union>p \<in> set ps. set (filter_objects b p))"
  by (simp add: find_matching_files_def)

lemma find_matching_files_keys:
  "summary_key ` find_matching_files b ps = (\<Union>p \<in> set ps. set (listing b p))"
  by (auto simp: find_matching_files_def filter_objects_def image_iff)

lemma find_matching_files_bucket:
  "c \<in> find_matching_files b ps \<Longrightarrow> summary_bucket_name c = name b"
  by (auto simp: find_matching_files_def filter_objects_def)

lemma candidate_keys_distinct:
  assumes "iterates order (find_matching_files b ps)"
  shows "distinct (map summary_key order)"
proof -
  have "inj_on summary_key (set order)"
  proof (rule inj_onI)
    fix c c' assume "c \<in> set order" "c' \<in> set order" "summary_key c = summary_key c'"
    with assms find_matching_files_bucket [of _ b ps] show "c = c'"
      by (simp add: iterates_def)
  qed
  with assms show ?thesis
    by (simp add: distinct_map iterates_def)
qed

text \<open>
  Claim C3. The candidate set is the union over the prefixes of what each listing
  returns, and its keys are the union of the listed keys. It is a set: whatever the order
  in which \<^verbatim>\<open>main\<close> visits it, a key name is put on the queue once when some listing
  returned it, however many listings did, and not at all otherwise.
\<close>

theorem candidates_are_deduplicated_union:
  "find_matching_files b (prefixes a) = (\<Union>p \<in> set (prefixes a). set (filter_objects b p)) \<and>
   summary_key ` find_matching_files b (prefixes a) = (\<Union>p \<in> set (prefixes a). set (listing b p)) \<and>
   (iterates order (find_matching_files b (prefixes a)) \<longrightarrow>
      (\<forall>k. count_list (to_put (main b a order)) (Some k) =
             (if k \<in> (\<Union>p \<in> set (prefixes a). set (listing b p)) then 1 else 0)))"
proof (intro conjI impI allI)
  show "find_matching_files b (prefixes a) = (\<Union>p \<in> set (prefixes a). set (filter_objects b p))"
    by (rule find_matching_files_union)
  show "summary_key ` find_matching_files b (prefixes a) = (\<Union>p \<in> set (prefixes a). set (listing b p))"
    by (rule find_matching_files_keys)
next
  fix k
  assume it: "iterates order (find_matching_files b (prefixes a))"
  have "count_list (to_put (main b a order)) (Some k) = count_list (map Some (map summary_key order)) (Some k)"
    by (simp add: main_def count_list_append count_list_0_iff comp_def)
  also have "\<dots> = count_list (map summary_key order) k"
    by (induction order) simp_all
  also have "\<dots> = (if k \<in> set (map summary_key order) then 1 else 0)"
    by (rule count_list_distinct) (rule candidate_keys_distinct [OF it])
  also have "set (map summary_key order) = (\<Union>p \<in> set (prefixes a). set (listing b p))"
    using it find_matching_files_keys [of b "prefixes a"] by (simp add: iterates_def)
  finally show "count_list (to_put (main b a order)) (Some k) =
             (if k \<in> (\<Union>p \<in> set (prefixes a). set (listing b p)) then 1 else 0)" .
qed

theorem candidates_are_deduplicated_union_witness:
  "iterates [\<lparr>summary_bucket_name = ''assets'', summary_key = ''b.css''\<rparr>,
             \<lparr>summary_bucket_name = ''assets'', summary_key = ''a.png''\<rparr>]
     (find_matching_files scenario_bucket [''a'', ''a.p'', ''b''])
   \<and> listing scenario_bucket ''a'' = [''a.png'']
   \<and> listing scenario_bucket ''a.p'' = [''a.png'']
   \<and> count_list
        (to_put (main scenario_bucket
           \<lparr>prefixes = [''a'', ''a.p'', ''b''], workers = 4, verbose = False, dryrun = False\<rparr>
           [\<lparr>summary_bucket_name = ''assets'', summary_key = ''b.css''\<rparr>,
            \<lparr>summary_bucket_name = ''assets'', summary_key = ''a.png''\<rparr>]))
        (Some ''a.png'') = 1"
proof -
  let ?a = "\<lparr>prefixes = [''a'', ''a.p'', ''b''], workers = 4, verbose = False, dryrun = False\<rparr>"
  let ?order = "[\<lparr>summary_bucket_name = ''assets'', summary_key = ''b.css''\<rparr>,
                 \<lparr>summary_bucket_name = ''assets'', summary_key = ''a.png''\<rparr>]"
  have l: "listing scenario_bucket ''a'' = [''a.png'']" "listing scenario_bucket ''a.p'' = [''a.png'']"
    "listing scenario_bucket ''b'' = [''b.css'']"
    by (simp_all add: scenario)
  have it: "iterates ?order (find_matching_files scenario_bucket (prefixes ?a))"
    by (auto simp: iterates_def find_matching_files_def filter_objects_def l)
       (simp_all add: scenario_bucket_def)
  from candidates_are_deduplicated_union [of scenario_bucket ?a ?order] it l
  show ?thesis by simp
qed

section \<open>The wait at the queue\<close>

text \<open>
  Claim C8 does not hold of the code. The wait of \<^verbatim>\<open>queue.get(BLOCK_TIME)\<close> has no
  bound: on a queue on which nothing arrives the worker stays in the call and never leaves
  its loop, and an entry that arrives after twice \<^verbatim>\<open>BLOCK_TIME\<close> is still received (here
  the sentinel, at which the worker stops). A call with \<^verbatim>\<open>BLOCK_TIME\<close> as its timeout
  would have raised \<^verbatim>\<open>Empty\<close> after that time.
\<close>

theorem dequeue_wait_is_not_bounded:
  "check_headers g b [] v d = ([], b, Blocked_in_get) \<and>
   check_headers g b [(2 * BLOCK_TIME, None)] v d = ([], b, Sentinel_received) \<and>
   queue_get [(2 * BLOCK_TIME, x)] (BLOCK_TIME \<noteq> 0) None = (Got x, []) \<and>
   queue_get [(2 * BLOCK_TIME, x)] True (Some BLOCK_TIME) = (Raises_Empty, [(BLOCK_TIME, x)])"
  by (simp add: check_headers_empty check_headers_sentinel BLOCK_TIME_def)

section \<open>The run of the pool\<close>

text \<open>
  The pool with one worker is the loop of that worker: when \<^verbatim>\<open>main\<close> has put what it
  had to put, the steps of the one worker do what \<open>check_headers\<close> does on the entries of
  the queue, whatever their times of arrival. The worker is out of its loop when
  \<open>check_headers\<close> ends at the sentinel or by an exception of the body, and it stays in
  \<^verbatim>\<open>queue.get\<close> on the emptied queue when \<open>check_headers\<close> does.
\<close>

lemma worker_alone:
  assumes "in_loop s = [True]"
  shows "\<exists>n s'. run g v d (replicate n (Get 0)) s = Some s'
           \<and> trace s' = trace s @ map (Pair 0) (fst (check_headers g (store s) (map (Pair t) (queue s)) v d))
           \<and> store s' = fst (snd (check_headers g (store s) (map (Pair t) (queue s)) v d))
           \<and> (case snd (snd (check_headers g (store s) (map (Pair t) (queue s)) v d)) of
                 Sentinel_received \<Rightarrow> in_loop s' = [False]
               | Body_raised \<Rightarrow> in_loop s' = [False]
               | Blocked_in_get \<Rightarrow> in_loop s' = [True] \<and> queue s' = []
               | Get_raised \<Rightarrow> False)"
  using assms
proof (induction "queue s" arbitrary: s)
  case Nil
  then have "run g v d (replicate 0 (Get 0)) s = Some s" and "queue s = []"
    by simp_all
  with Nil show ?case
    by (intro exI [of _ 0] exI [of _ s]) (simp add: check_headers_empty)
next
  case (Cons e q)
  from Cons(2) have qs: "queue s = e # q" by simp
  show ?case
  proof (cases e)
    case None
    let ?s' = "s\<lparr>queue := q, in_loop := [False], dequeued := dequeued s @ [(0, None)]\<rparr>"
    from qs None Cons.prems have "run g v d (replicate 1 (Get 0)) s = Some ?s'"
      by simp
    with qs None show ?thesis
      by (intro exI [of _ 1] exI [of _ ?s']) (simp add: check_headers_sentinel)
  next
    case (Some k)
    obtain evs b' how where ck: "check_key g (store s) v d k = (evs, b', how)"
      by (cases "check_key g (store s) v d k")
    let ?s1 = "s\<lparr>queue := q, in_loop := [how = Next_entry],
                  dequeued := dequeued s @ [(0, Some k)],
                  trace := trace s @ map (Pair 0) evs, store := b'\<rparr>"
    from qs Some Cons.prems ck have st: "step g v d (Get 0) s = Some ?s1"
      by simp
    show ?thesis
    proof (cases how)
      case ClientError_raised
      with st have "run g v d (replicate 1 (Get 0)) s = Some ?s1"
        by simp
      with qs Some ck ClientError_raised show ?thesis
        by (intro exI [of _ 1] exI [of _ ?s1]) (simp add: check_headers_key)
    next
      case Next_entry
      then have "q = queue ?s1" and "in_loop ?s1 = [True]"
        by simp_all
      from Cons.hyps(1) [OF this] obtain n s' where
        r: "run g v d (replicate n (Get 0)) ?s1 = Some s'"
        and tr: "trace s' = trace ?s1 @ map (Pair 0) (fst (check_headers g (store ?s1) (map (Pair t) (queue ?s1)) v d))"
        and sto: "store s' = fst (snd (check_headers g (store ?s1) (map (Pair t) (queue ?s1)) v d))"
        and en: "(case snd (snd (check_headers g (store ?s1) (map (Pair t) (queue ?s1)) v d)) of
                   Sentinel_received \<Rightarrow> in_loop s' = [False]
                 | Body_raised \<Rightarrow> in_loop s' = [False]
                 | Blocked_in_get \<Rightarrow> in_loop s' = [True] \<and> queue s' = []
                 | Get_raised \<Rightarrow> False)"
        by blast
      from st r have rn: "run g v d (replicate (Suc n) (Get 0)) s = Some s'"
        by simp
      have "trace s' = trace s @ map (Pair 0) (fst (check_headers g (store s) (map (Pair t) (queue s)) v d))"
        and "store s' = fst (snd (check_headers g (store s) (map (Pair t) (queue s)) v d))"
        and "(case snd (snd (check_headers g (store s) (map (Pair t) (queue s)) v d)) of
                   Sentinel_received \<Rightarrow> in_loop s' = [False]
                 | Body_raised \<Rightarrow> in_loop s' = [False]
                 | Blocked_in_get \<Rightarrow> in_loop s' = [True] \<and> queue s' = []
                 | Get_raised \<Rightarrow> False)"
        using tr sto en qs Some ck Next_entry
        by (auto simp: check_headers_key split: prod.splits)
      with rn show ?thesis
        by blast
    qed
  qed
qed

lemma key_names_append: "key_names (xs @ ys) = key_names xs @ key_names ys"
  by (induction xs rule: key_names.induct) simp_all

lemma key_names_keys_in: "key_names es = keys_in (map snd es)"
  by (induction es rule: key_names.induct) simp_all

lemma keys_in_append: "keys_in (xs @ ys) = keys_in xs @ keys_in ys"
  by (induction xs rule: keys_in.induct) simp_all

lemma keys_in_main: "keys_in (map (\<lambda>c. Some (f c)) xs @ replicate n None) = map f xs"
proof -
  have "keys_in (replicate n None) = []"
    by (induction n) simp_all
  moreover have "keys_in (map (\<lambda>c. Some (f c)) xs) = map f xs"
    by (induction xs) simp_all
  ultimately show ?thesis
    by (simp add: keys_in_append)
qed

lemma count_list_leave:
  "i < length xs \<Longrightarrow> xs ! i \<Longrightarrow> Suc (count_list (xs[i := False]) True) = count_list xs True"
proof (induction xs arbitrary: i)
  case Nil
  then show ?case by simp
next
  case (Cons x xs)
  then show ?case by (cases i) auto
qed

lemma count_list_stay: "i < length xs \<Longrightarrow> xs ! i \<Longrightarrow> xs[i := True] = xs"
  by (metis list_update_id)

lemma count_list_replicate_True: "count_list (replicate n True) True = n"
  by (induction n) simp_all

lemma count_list_replicate_None: "count_list (replicate n None) None = n"
  by (induction n) simp_all

lemma count_list_map_Some: "count_list (map (\<lambda>c. Some (f c)) xs) None = 0"
  by (induction xs) simp_all

lemma step_measure:
  "step g v d act s = Some s' \<Longrightarrow>
   Suc (2 * length (to_put s') + length (queue s')) \<le> 2 * length (to_put s) + length (queue s)"
  by (cases act) (auto split: list.splits option.splits if_splits prod.splits)

lemma run_measure:
  "run g v d sched s = Some s' \<Longrightarrow>
   length sched + (2 * length (to_put s') + length (queue s'))
     \<le> 2 * length (to_put s) + length (queue s)"
proof (induction sched arbitrary: s)
  case Nil
  then show ?case by simp
next
  case (Cons act sched)
  then obtain s1 where s1: "step g v d act s = Some s1" and r: "run g v d sched s1 = Some s'"
    by (auto split: option.splits)
  from Cons.IH [OF r] step_measure [OF s1] show ?case by simp
qed

lemma step_history:
  "step g v d act s = Some s' \<Longrightarrow>
   map snd (dequeued s') @ queue s' @ to_put s' = map snd (dequeued s) @ queue s @ to_put s"
  by (cases act) (auto split: list.splits option.splits if_splits prod.splits)

lemma run_history:
  "run g v d sched s = Some s' \<Longrightarrow>
   map snd (dequeued s') @ queue s' @ to_put s' = map snd (dequeued s) @ queue s @ to_put s"
proof (induction sched arbitrary: s)
  case Nil
  then show ?case by simp
next
  case (Cons act sched)
  then obtain s1 where s1: "step g v d act s = Some s1" and r: "run g v d sched s1 = Some s'"
    by (auto split: option.splits)
  from Cons.IH [OF r] step_history [OF s1] show ?case by simp
qed

text \<open>A worker that is in its loop has its sentinel ahead of it, whatever happens.\<close>

lemma step_sentinel:
  assumes "step g v d act s = Some s'" and "sentinel_invariant W s"
  shows "sentinel_invariant W s'"
proof -
  from assms(2) have l: "length (in_loop s) = W"
    and c: "count_list (in_loop s) True \<le> count_list (queue s @ to_put s) None"
    by (simp_all add: sentinel_invariant_def)
  show ?thesis
  proof (cases act)
    case Put
    with assms(1) obtain e es where "to_put s = e # es" and "s' = s\<lparr>to_put := es, queue := queue s @ [e]\<rparr>"
      by (auto split: list.splits)
    with l c show ?thesis
      by (simp add: sentinel_invariant_def)
  next
    case (Get i)
    with assms(1) have i: "i < length (in_loop s)" "in_loop s ! i"
      by (auto split: if_splits)
    show ?thesis
    proof (cases "queue s")
      case Nil
      with Get assms(1) i show ?thesis by simp
    next
      case (Cons e q')
      show ?thesis
      proof (cases e)
        case None
        with Cons Get assms(1) i
        have s': "s' = s\<lparr>queue := q', in_loop := (in_loop s)[i := False],
                        dequeued := dequeued s @ [(i, None)]\<rparr>"
          by simp
        from count_list_leave [OF i] c Cons None
        have "count_list ((in_loop s)[i := False]) True \<le> count_list (q' @ to_put s) None"
          by simp
        with s' l show ?thesis
          by (simp add: sentinel_invariant_def)
      next
        case (Some key_name)
        obtain evs b' how where ck: "check_key g (store s) v d key_name = (evs, b', how)"
          by (cases "check_key g (store s) v d key_name")
        with Cons Get Some assms(1) i
        have s': "s' = s\<lparr>queue := q', in_loop := (in_loop s)[i := (how = Next_entry)],
                        dequeued := dequeued s @ [(i, Some key_name)],
                        trace := trace s @ map (\<lambda>e. (i, e)) evs, store := b'\<rparr>"
          by simp
        have "count_list ((in_loop s)[i := (how = Next_entry)]) True \<le> count_list (in_loop s) True"
        proof (cases "how = Next_entry")
          case True
          with count_list_stay [OF i] show ?thesis by simp
        next
          case False
          with count_list_leave [OF i] show ?thesis by simp
        qed
        with c Cons Some
        have "count_list ((in_loop s)[i := (how = Next_entry)]) True \<le> count_list (q' @ to_put s) None"
          by simp
        with s' l show ?thesis
          by (simp add: sentinel_invariant_def)
      qed
    qed
  qed
qed

lemma run_sentinel:
  "run g v d sched s = Some s' \<Longrightarrow> sentinel_invariant W s \<Longrightarrow> sentinel_invariant W s'"
proof (induction sched arbitrary: s)
  case Nil
  then show ?case by simp
next
  case (Cons act sched)
  then obtain s1 where s1: "step g v d act s = Some s1" and r: "run g v d sched s1 = Some s'"
    by (auto split: option.splits)
  from Cons.IH [OF r step_sentinel [OF s1 Cons.prems(2)]] show ?case .
qed

lemma sentinel_invariant_main: "sentinel_invariant (nat (workers a)) (main b a order)"
  by (simp add: sentinel_invariant_def main_def count_list_replicate_True
        count_list_replicate_None count_list_map_Some)

lemma sentinel_invariant_final:
  assumes "sentinel_invariant W s" and "\<not> enabled s"
  shows "length (in_loop s) = W \<and> True \<notin> set (in_loop s) \<and> to_put s = []"
proof -
  from assms(2) have p: "to_put s = []" and c: "queue s = [] \<or> True \<notin> set (in_loop s)"
    unfolding enabled_def by auto
  from c have "True \<notin> set (in_loop s)"
  proof
    assume "queue s = []"
    with assms(1) p have "count_list (in_loop s) True = 0"
      by (simp add: sentinel_invariant_def)
    then show ?thesis
      by (simp add: count_list_0_iff)
  qed
  with assms(1) p show ?thesis
    by (simp add: sentinel_invariant_def)
qed

text \<open>While the key names are readable no body raises, and the keys stay readable.\<close>

lemma check_key_readable:
  "endswith k ''/'' \<or> contents b k \<noteq> None \<Longrightarrow> snd (snd (check_key g b v d k)) = Next_entry"
  by (auto simp: check_key_unfold fix_object_def split: option.splits)

lemma check_key_keeps_stored:
  "contents b x \<noteq> None \<Longrightarrow> contents (fst (snd (check_key g b v d k))) x \<noteq> None"
  by (auto simp: check_key_unfold fix_object_def copy_from_def split: option.splits)

lemma check_key_keeps_readable:
  "readable b keys \<Longrightarrow> readable (fst (snd (check_key g b v d k))) keys"
  unfolding readable_def using check_key_keeps_stored by blast

lemma step_invariant:
  assumes "step g v d act s = Some s'" and "run_invariant keys W s"
  shows "run_invariant keys W s'"
proof -
  from assms(2) obtain rest where
    rd: "readable (store s) keys"
    and k: "key_names (dequeued s) @ rest = keys"
    and q: "queue s @ to_put s = map Some rest @ replicate (count_list (in_loop s) True) None"
    and l: "length (in_loop s) = W"
    and a: "rest \<noteq> [] \<longrightarrow> count_list (in_loop s) True = W"
    unfolding run_invariant_def by blast
  show ?thesis
  proof (cases act)
    case Put
    with assms(1) obtain e es where "to_put s = e # es" and "s' = s\<lparr>to_put := es, queue := queue s @ [e]\<rparr>"
      by (auto split: list.splits)
    with rd k q l a show ?thesis
      unfolding run_invariant_def by (intro conjI exI [of _ rest]) simp_all
  next
    case (Get i)
    with assms(1) have i: "i < length (in_loop s)" "in_loop s ! i"
      by (auto split: if_splits)
    show ?thesis
    proof (cases "queue s")
      case Nil
      with Get assms(1) i show ?thesis by simp
    next
      case (Cons e q')
      show ?thesis
      proof (cases e)
        case None
        with Cons Get assms(1) i
        have s': "s' = s\<lparr>queue := q', in_loop := (in_loop s)[i := False],
                        dequeued := dequeued s @ [(i, None)]\<rparr>"
          by simp
        from q Cons None have rest: "rest = []"
          by (cases rest) auto
        from count_list_leave [OF i] obtain n where n: "count_list (in_loop s) True = Suc n"
          and n': "count_list ((in_loop s)[i := False]) True = n"
          by metis
        from q Cons None rest n have "q' @ to_put s = replicate n None"
          by simp
        with s' rd k l rest n' show ?thesis
          unfolding run_invariant_def
          by (intro conjI exI [of _ "[]"]) (simp_all add: key_names_append)
      next
        case (Some key_name)
        have "rest \<noteq> []"
        proof
          assume "rest = []"
          with q Cons Some
          have "Some key_name # q' @ to_put s = replicate (count_list (in_loop s) True) None"
            by simp
          then show False
            by (cases "count_list (in_loop s) True") simp_all
        qed
        with q Cons Some obtain rest' where rest: "rest = key_name # rest'"
          by (cases rest) auto
        with k have "key_name \<in> set keys"
          by auto
        with rd have "endswith key_name ''/'' \<or> contents (store s) key_name \<noteq> None"
          by (simp add: readable_def)
        from check_key_readable [OF this, of g v d]
        obtain evs b' where ck: "check_key g (store s) v d key_name = (evs, b', Next_entry)"
          by (cases "check_key g (store s) v d key_name") simp
        from check_key_keeps_readable [OF rd, of g v d key_name] ck have rd': "readable b' keys"
          by simp
        from ck Cons Get Some assms(1) i count_list_stay [OF i]
        have s': "s' = s\<lparr>queue := q', in_loop := in_loop s,
                        dequeued := dequeued s @ [(i, Some key_name)],
                        trace := trace s @ map (\<lambda>e. (i, e)) evs, store := b'\<rparr>"
          by simp
        from rest q Cons Some
        have "q' @ to_put s = map Some rest' @ replicate (count_list (in_loop s) True) None"
          by simp
        with s' rd' k l a rest show ?thesis
          unfolding run_invariant_def
          by (intro conjI exI [of _ rest']) (simp_all add: key_names_append)
      qed
    qed
  qed
qed

lemma run_invariant_run:
  "run g v d sched s = Some s' \<Longrightarrow> run_invariant keys W s \<Longrightarrow> run_invariant keys W s'"
proof (induction sched arbitrary: s)
  case Nil
  then show ?case by simp
next
  case (Cons act sched)
  then obtain s1 where s1: "step g v d act s = Some s1" and r: "run g v d sched s1 = Some s'"
    by (auto split: option.splits)
  from Cons.IH [OF r step_invariant [OF s1 Cons.prems(2)]] show ?case .
qed

lemma run_invariant_main:
  "readable b (map summary_key order) \<Longrightarrow>
   run_invariant (map summary_key order) (nat (workers a)) (main b a order)"
  unfolding run_invariant_def
  by (intro conjI exI [of _ "map summary_key order"])
     (simp_all add: main_def count_list_replicate_True)

lemma enabled_iff_step: "enabled s \<longleftrightarrow> (\<exists>act. step g v d act s \<noteq> None)"
proof
  assume "enabled s"
  then consider "to_put s \<noteq> []" | "queue s \<noteq> []" "True \<in> set (in_loop s)"
    unfolding enabled_def by blast
  then show "\<exists>act. step g v d act s \<noteq> None"
  proof cases
    case 1
    then have "step g v d Put s \<noteq> None" by (simp split: list.splits)
    then show ?thesis ..
  next
    case 2
    then obtain i where "i < length (in_loop s)" "in_loop s ! i"
      by (auto simp: in_set_conv_nth)
    with 2(1) have "step g v d (Get i) s \<noteq> None"
      by (simp split: list.splits option.splits prod.splits)
    then show ?thesis ..
  qed
next
  assume "\<exists>act. step g v d act s \<noteq> None"
  then obtain act where "step g v d act s \<noteq> None" ..
  then show "enabled s"
    unfolding enabled_def
    by (cases act) (auto split: list.splits if_splits simp: in_set_conv_nth)
qed

lemma run_invariant_final:
  assumes "run_invariant keys W s" and "\<not> enabled s" and "1 \<le> W"
  shows "key_names (dequeued s) = keys \<and> queue s = []"
proof -
  from assms(1) obtain rest where
    k: "key_names (dequeued s) @ rest = keys"
    and q: "queue s @ to_put s = map Some rest @ replicate (count_list (in_loop s) True) None"
    and l: "length (in_loop s) = W"
    and a: "rest \<noteq> [] \<longrightarrow> count_list (in_loop s) True = W"
    unfolding run_invariant_def by blast
  from assms(2) have p: "to_put s = []" and c: "queue s = [] \<or> True \<notin> set (in_loop s)"
    unfolding enabled_def by auto
  from c have "rest = [] \<and> count_list (in_loop s) True = 0"
  proof
    assume "queue s = []"
    with q p show ?thesis by simp
  next
    assume "True \<notin> set (in_loop s)"
    then have z: "count_list (in_loop s) True = 0" by simp
    with a assms(3) show ?thesis by auto
  qed
  with k q p show ?thesis by simp
qed

lemma dequeued_keys_distinct:
  assumes "distinct keys"
    and "map snd (dequeued s) @ queue s @ to_put s = map Some keys @ replicate n None"
  shows "distinct (key_names (dequeued s))"
proof -
  from assms(2) have "keys_in (map snd (dequeued s) @ queue s @ to_put s) = keys"
    using keys_in_main [of "\<lambda>k. k" keys n] by simp
  then have "key_names (dequeued s) @ keys_in (queue s @ to_put s) = keys"
    by (simp add: keys_in_append key_names_keys_in)
  with assms(1) show ?thesis
    by (metis distinct_append)
qed

text \<open>
  What holds of the pool. Let \<^verbatim>\<open>main\<close> visit the candidate set in any order and start at
  least one worker, and let the run take any sequence of steps. Then what was taken from
  the queue, what is on it and what is still to be put are together the keys of the \<open>N\<close>
  candidates followed by exactly one \<^verbatim>\<open>None\<close> for each worker; the run has at most
  \<open>2 * (N + W)\<close> steps; no key name is taken twice; a step can be taken exactly when
  \<open>enabled\<close> says so; and when no step can be taken any more, all \<open>W\<close> workers are out of
  their loops. When moreover every candidate key ends with the path separator or has its
  object stored, so that no read raises, then at the end the key of every candidate has
  been taken exactly once and the queue is empty.
\<close>

lemma pool_run:
  assumes "iterates order (find_matching_files b (prefixes a))" and "1 \<le> workers a"
    and "run g v d sched (main b a order) = Some s"
  shows "map snd (dequeued s) @ queue s @ to_put s =
           map (\<lambda>c. Some (summary_key c)) order @ replicate (nat (workers a)) None
       \<and> length order = card (find_matching_files b (prefixes a))
       \<and> length sched \<le> 2 * (length order + nat (workers a))
       \<and> distinct (key_names (dequeued s))
       \<and> (enabled s \<longleftrightarrow> (\<exists>act. step g v d act s \<noteq> None))
       \<and> (\<not> enabled s \<longrightarrow>
            length (in_loop s) = nat (workers a)
          \<and> (\<forall>w \<in> set (in_loop s). \<not> w)
          \<and> to_put s = [])
       \<and> ((\<forall>c \<in> find_matching_files b (prefixes a).
              endswith (summary_key c) ''/'' \<or> contents b (summary_key c) \<noteq> None) \<longrightarrow>
          \<not> enabled s \<longrightarrow>
            key_names (dequeued s) = map summary_key order
          \<and> (\<forall>c \<in> find_matching_files b (prefixes a).
                count_list (key_names (dequeued s)) (summary_key c) = 1)
          \<and> queue s = [])"
proof -
  let ?keys = "map summary_key order"
  let ?W = "nat (workers a)"
  have dk: "distinct ?keys"
    by (rule candidate_keys_distinct [OF assms(1)])
  have h: "map snd (dequeued s) @ queue s @ to_put s =
           map (\<lambda>c. Some (summary_key c)) order @ replicate ?W None"
    using run_history [OF assms(3)] by (simp add: main_def)
  have n: "length order = card (find_matching_files b (prefixes a))"
    using assms(1) distinct_card [of order] by (simp add: iterates_def)
  have m: "length sched \<le> 2 * (length order + ?W)"
    using run_measure [OF assms(3)] by (simp add: main_def)
  from h have "map snd (dequeued s) @ queue s @ to_put s = map Some ?keys @ replicate ?W None"
    by (simp add: comp_def)
  from dequeued_keys_distinct [OF dk this] have once: "distinct (key_names (dequeued s))" .
  have e: "enabled s \<longleftrightarrow> (\<exists>act. step g v d act s \<noteq> None)"
    by (rule enabled_iff_step)
  have si: "sentinel_invariant ?W s"
    by (rule run_sentinel [OF assms(3) sentinel_invariant_main])
  have t: "length (in_loop s) = ?W \<and> (\<forall>w \<in> set (in_loop s). \<not> w) \<and> to_put s = []"
    if "\<not> enabled s"
    using sentinel_invariant_final [OF si that] by auto
  have f: "key_names (dequeued s) = ?keys
          \<and> (\<forall>c \<in> find_matching_files b (prefixes a).
                count_list (key_names (dequeued s)) (summary_key c) = 1)
          \<and> queue s = []"
    if st: "\<forall>c \<in> find_matching_files b (prefixes a).
              endswith (summary_key c) ''/'' \<or> contents b (summary_key c) \<noteq> None"
      and ne: "\<not> enabled s"
  proof -
    from st assms(1) have "readable b ?keys"
      by (auto simp: readable_def iterates_def)
    from run_invariant_run [OF assms(3) run_invariant_main [OF this]]
    have inv: "run_invariant ?keys ?W s" .
    from assms(2) have "1 \<le> ?W" by simp
    from run_invariant_final [OF inv ne this]
    have k: "key_names (dequeued s) = ?keys" and q: "queue s = []"
      by simp_all
    have "count_list ?keys (summary_key c) = 1" if "c \<in> find_matching_files b (prefixes a)" for c
      using that assms(1) count_list_distinct [OF dk, of "summary_key c"]
      by (simp add: iterates_def)
    with k q show ?thesis by auto
  qed
  from h n m once e t f show ?thesis by blast
qed

lemma pool_run_example:
  "iterates [\<lparr>summary_bucket_name = ''assets'', summary_key = ''a.png''\<rparr>,
             \<lparr>summary_bucket_name = ''assets'', summary_key = ''b.css''\<rparr>]
     (find_matching_files scenario_bucket [''a'', ''b''])
   \<and> contents scenario_bucket ''a.png'' \<noteq> None \<and> contents scenario_bucket ''b.css'' \<noteq> None
   \<and> run scenario_guess False True [Put, Get 0, Put, Put, Get 1, Put, Get 0, Get 1]
        (main scenario_bucket
           \<lparr>prefixes = [''a'', ''b''], workers = 2, verbose = False, dryrun = True\<rparr>
           [\<lparr>summary_bucket_name = ''assets'', summary_key = ''a.png''\<rparr>,
            \<lparr>summary_bucket_name = ''assets'', summary_key = ''b.css''\<rparr>])
       = Some \<lparr>to_put = [], queue = [], in_loop = [False, False],
               dequeued = [(0, Some ''a.png''), (1, Some ''b.css''), (0, None), (1, None)],
               trace = [(0, Fetch ''a.png''),
                        (0, Stdout ''a.png: Current content type (text/plain) does not match expected (image/png); fixing''),
                        (1, Fetch ''b.css'')],
               store = scenario_bucket\<rparr>
   \<and> \<not> enabled \<lparr>to_put = [], queue = [], in_loop = [False, False],
               dequeued = [(0, Some ''a.png''), (1, Some ''b.css''), (0, None), (1, None)],
               trace = [(0, Fetch ''a.png''),
                        (0, Stdout ''a.png: Current content type (text/plain) does not match expected (image/png); fixing''),
                        (1, Fetch ''b.css'')],
               store = scenario_bucket\<rparr>
   \<and> count_list (key_names [(0 :: nat, Some ''a.png''), (1, Some ''b.css''), (0, None), (1, None)])
        ''a.png'' = 1"
proof -
  let ?a = "\<lparr>prefixes = [''a'', ''b''], workers = 2, verbose = False, dryrun = True\<rparr>"
  let ?order = "[\<lparr>summary_bucket_name = ''assets'', summary_key = ''a.png''\<rparr>,
                 \<lparr>summary_bucket_name = ''assets'', summary_key = ''b.css''\<rparr>]"
  let ?s = "\<lparr>to_put = [], queue = [], in_loop = [False, False],
               dequeued = [(0, Some ''a.png''), (1, Some ''b.css''), (0, None), (1, None)],
               trace = [(0, Fetch ''a.png''),
                        (0, Stdout ''a.png: Current content type (text/plain) does not match expected (image/png); fixing''),
                        (1, Fetch ''b.css'')],
               store = scenario_bucket\<rparr>"
  have l: "listing scenario_bucket ''a'' = [''a.png'']" "listing scenario_bucket ''b'' = [''b.css'']"
    by (simp_all add: scenario)
  have it: "iterates ?order (find_matching_files scenario_bucket (prefixes ?a))"
    by (auto simp: iterates_def find_matching_files_def filter_objects_def l)
       (simp_all add: scenario_bucket_def)
  have w: "1 \<le> workers ?a"
    by simp
  have c: "contents scenario_bucket ''a.png'' \<noteq> None" "contents scenario_bucket ''b.css'' \<noteq> None"
    by (simp_all add: scenario)
  have st: "\<forall>c \<in> find_matching_files scenario_bucket (prefixes ?a).
              endswith (summary_key c) ''/'' \<or> contents scenario_bucket (summary_key c) \<noteq> None"
    using c by (auto simp: find_matching_files_def filter_objects_def l)
  have r: "run scenario_guess False True [Put, Get 0, Put, Put, Get 1, Put, Get 0, Get 1]
             (main scenario_bucket ?a ?order) = Some ?s"
    by (simp add: main_def check_key_unfold truth_def str_def scenario numeral_2_eq_2)
  have e: "\<not> enabled ?s"
    by (simp add: enabled_def)
  from pool_run [OF it w r] e st it r c
  show ?thesis by simp
qed

text \<open>
  Claim C9 does not hold of the code. With one worker and the candidates \<^verbatim>\<open>gone.png\<close>,
  of which the object is no longer stored, and \<^verbatim>\<open>b.css\<close>, \<^verbatim>\<open>main\<close> puts the two key
  names and one \<^verbatim>\<open>None\<close>; the worker takes \<^verbatim>\<open>gone.png\<close> and the exception of the read of
  its declared type ends it. No step can be taken any more: \<^verbatim>\<open>b.css\<close> stays on the queue
  and is never taken. It is the failure of claim C6 that ends the worker here; where no
  read raises, every key is taken exactly once (\<open>pool_run\<close>).
\<close>

theorem stale_key_is_the_last_taken:
  "set [\<lparr>summary_bucket_name = ''assets'', summary_key = ''gone.png''\<rparr>,
        \<lparr>summary_bucket_name = ''assets'', summary_key = ''b.css''\<rparr>]
     = find_matching_files scenario_bucket [''gone'', ''b'']
   \<and> run scenario_guess False False [Put, Put, Put, Get 0]
        (main scenario_bucket
           \<lparr>prefixes = [''gone'', ''b''], workers = 1, verbose = False, dryrun = False\<rparr>
           [\<lparr>summary_bucket_name = ''assets'', summary_key = ''gone.png''\<rparr>,
            \<lparr>summary_bucket_name = ''assets'', summary_key = ''b.css''\<rparr>])
       = Some \<lparr>to_put = [], queue = [Some ''b.css'', None], in_loop = [False],
               dequeued = [(0, Some ''gone.png'')],
               trace = [(0, Fetch ''gone.png'')],
               store = scenario_bucket\<rparr>
   \<and> step scenario_guess False False Put
         \<lparr>to_put = [], queue = [Some ''b.css'', None], in_loop = [False],
               dequeued = [(0, Some ''gone.png'')],
               trace = [(0, Fetch ''gone.png'')],
               store = scenario_bucket\<rparr> = None
   \<and> step scenario_guess False False (Get 0)
         \<lparr>to_put = [], queue = [Some ''b.css'', None], in_loop = [False],
               dequeued = [(0, Some ''gone.png'')],
               trace = [(0, Fetch ''gone.png'')],
               store = scenario_bucket\<rparr> = None
   \<and> count_list (key_names [(0 :: nat, Some ''gone.png'')]) ''b.css'' = 0"
proof -
  have l: "listing scenario_bucket ''gone'' = [''gone.png'']" "listing scenario_bucket ''b'' = [''b.css'']"
    by (simp_all add: scenario)
  have "set [\<lparr>summary_bucket_name = ''assets'', summary_key = ''gone.png''\<rparr>,
        \<lparr>summary_bucket_name = ''assets'', summary_key = ''b.css''\<rparr>]
     = find_matching_files scenario_bucket [''gone'', ''b'']"
    by (auto simp: find_matching_files_def filter_objects_def l)
       (simp_all add: scenario_bucket_def)
  then show ?thesis
    by (simp add: main_def check_key_unfold scenario)
qed

section \<open>Dry runs\<close>















end
